theory Spec2Isabelle
  imports Complex_Main "HOL-Library.Sublist" "HOL-Library.Word"
begin

section \<open>The multipart chunk parser (mjpeg-proxy.go)\<close>

text \<open>
  Go's \<^verbatim>\<open>[]byte\<close> and \<^verbatim>\<open>string\<close> are both byte sequences; they are modelled as
  \<^typ>\<open>string\<close> (a list of 8-bit characters).
\<close>

type_synonym bytes = string

definition LF :: char where "LF = CHR 0x0A"
definition CR :: char where "CR = CHR 0x0D"

text \<open>
  Every way a call of the parser can end other than with a value: the \<^verbatim>\<open>error\<close> values
  it returns (those of \<^verbatim>\<open>bufio\<close> and \<^verbatim>\<open>strconv\<close>, and the two it creates with
  \<^verbatim>\<open>errors.New\<close>) and the two run-time panics of the Go runtime it can hit.
\<close>

datatype failure =
    EOF \<comment> \<open>\<^verbatim>\<open>io.EOF\<close>\<close>
  | ErrBufferFull \<comment> \<open>\<^verbatim>\<open>bufio.ErrBufferFull\<close>\<close>
  | ErrSyntax \<comment> \<open>\<^verbatim>\<open>strconv.ErrSyntax\<close>\<close>
  | ErrRange \<comment> \<open>\<^verbatim>\<open>strconv.ErrRange\<close>\<close>
  | ContentLengthNotFound \<comment> \<open>"Content-Length chunk header not found"\<close>
  | ReceivedFinalChunk \<comment> \<open>"received final chunk"\<close>
  | PanicIndexOutOfRange \<comment> \<open>panic: index out of range\<close>
  | PanicMakeSliceLen \<comment> \<open>panic: makeslice: len out of range\<close>

subsection \<open>The buffered reader\<close>

text \<open>
  The upstream body is a finite byte sequence followed by end of file. \<open>rest\<close> is what
  has not been consumed yet. \<^verbatim>\<open>Read\<close> may return fewer bytes than asked for; how many
  it returns on each call depends on the network and on the buffer, so it is given by
  \<open>sched\<close>: the sizes of the coming partial reads (at least one byte each; once the
  list is used up a read returns all it can).
\<close>

record reader =
  rest :: bytes
  sched :: "nat list"

definition defaultBufSize :: nat where
  "defaultBufSize = 4096"

text \<open>
  \<^verbatim>\<open>bufio.Reader.ReadSlice('\n')\<close>: the bytes up to and including the first line feed.
  It fails with \<^verbatim>\<open>ErrBufferFull\<close> when the buffer (4096 bytes) fills before a line
  feed is seen, and with the read error (\<^verbatim>\<open>io.EOF\<close>) when the stream ends first.
\<close>

definition ReadSlice :: "reader \<Rightarrow> failure + (bytes \<times> reader)" where
  "ReadSlice r =
     (let pre = takeWhile (\<lambda>c. c \<noteq> LF) (rest r);
          suf = dropWhile (\<lambda>c. c \<noteq> LF) (rest r)
      in if defaultBufSize \<le> length pre then Inl ErrBufferFull
         else if suf = [] then Inl EOF
         else Inr (pre @ [LF], r\<lparr>rest := tl suf\<rparr>))"

text \<open>
  \<^verbatim>\<open>bufio.Reader.Read(p)\<close> with \<open>k = len(p)\<close>: at the end of the stream it returns
  \<^verbatim>\<open>(0, io.EOF)\<close>, otherwise between 1 and \<open>k\<close> bytes and no error.
\<close>

definition Read :: "reader \<Rightarrow> nat \<Rightarrow> failure + (bytes \<times> reader)" where
  "Read r k =
     (if k = 0 then Inr ([], r)
      else if rest r = [] then Inl EOF
      else let n = (case sched r of [] \<Rightarrow> k | c # _ \<Rightarrow> min k (max 1 c))
           in Inr (take n (rest r), r\<lparr>rest := drop n (rest r), sched := tl (sched r)\<rparr>))"

subsection \<open>The functions of package strings and strconv that the parser calls\<close>

text \<open>\<^verbatim>\<open>strings.TrimRight(s, cutset)\<close>: \<open>s\<close> without its trailing bytes that are in the cutset.\<close>

definition TrimRight :: "string \<Rightarrow> string \<Rightarrow> string" where
  "TrimRight s cutset = rev (dropWhile (\<lambda>c. c \<in> set cutset) (rev s))"

text \<open>
  \<^verbatim>\<open>strings.SplitN(s, sep, 2)\<close> for a non-empty separator: \<open>[s]\<close> when \<open>sep\<close> does not
  occur in \<open>s\<close>, otherwise the text before its first occurrence and the text after it.
\<close>

fun cut :: "string \<Rightarrow> string \<Rightarrow> (string \<times> string) option" where
  "cut sep [] = None"
| "cut sep (c # cs) =
     (if prefix sep (c # cs) then Some ([], drop (length sep) (c # cs))
      else (case cut sep cs of None \<Rightarrow> None | Some (a, b) \<Rightarrow> Some (c # a, b)))"

definition SplitN2 :: "string \<Rightarrow> string \<Rightarrow> string list" where
  "SplitN2 s sep = (case cut sep s of None \<Rightarrow> [s] | Some (a, b) \<Rightarrow> [a, b])"

text \<open>
  \<^verbatim>\<open>strings.EqualFold\<close> compares under Unicode simple case folding. The parser calls it
  with the constant \<^verbatim>\<open>"Content-Length"\<close>, whose letters fold only to their other ASCII
  case (only K and S have a fold partner outside ASCII), so for this use it is
  equality of the two byte strings after mapping A..Z to a..z.
\<close>

definition toLower :: "char \<Rightarrow> char" where
  "toLower c =
     (let n = (of_char c :: nat) in if 65 \<le> n \<and> n \<le> 90 then char_of (n + 32) else c)"

definition EqualFold :: "string \<Rightarrow> string \<Rightarrow> bool" where
  "EqualFold s t = (map toLower s = map toLower t)"

text \<open>
  \<^verbatim>\<open>strconv.Atoi\<close> on a 64-bit platform: an optional sign and then one or more decimal
  digits; \<^verbatim>\<open>ErrSyntax\<close> for anything else, \<^verbatim>\<open>ErrRange\<close> when the value does not fit
  in an \<^verbatim>\<open>int\<close>.
\<close>

definition is_digit :: "char \<Rightarrow> bool" where
  "is_digit c = (48 \<le> (of_char c :: nat) \<and> (of_char c :: nat) \<le> 57)"

definition digits_value :: "string \<Rightarrow> nat" where
  "digits_value ds = foldl (\<lambda>acc c. 10 * acc + (of_char c - 48)) 0 ds"

definition Atoi :: "string \<Rightarrow> failure + int" where
  "Atoi s =
     (let neg = (s \<noteq> [] \<and> hd s = CHR ''-'');
          ds = (if s \<noteq> [] \<and> (hd s = CHR ''-'' \<or> hd s = CHR ''+'') then tl s else s)
      in if ds = [] \<or> \<not> list_all is_digit ds then Inl ErrSyntax
         else let v = (if neg then - int (digits_value ds) else int (digits_value ds))
              in if v < - (2 ^ 63) \<or> 2 ^ 63 \<le> v then Inl ErrRange else Inr v)"

subsection \<open>readChunkHeader\<close>

text \<open>
  The body of the header loop after the blank-line test ("find data size"): the line
  is split at its first \<^verbatim>\<open>": "\<close>; when the key is \<^verbatim>\<open>Content-Length\<close> in any case, the
  value \<^verbatim>\<open>parts[1]\<close> is parsed and becomes the size. Indexing \<^verbatim>\<open>parts[1]\<close> of a
  one-element slice panics in Go, which is written out here.
\<close>

definition findDataSize :: "string \<Rightarrow> int \<Rightarrow> failure + int" where
  "findDataSize lineStr sz =
     (let parts = SplitN2 lineStr '': '' in
      if EqualFold (parts ! 0) ''Content-Length'' then
        (if length parts \<le> 1 then Inl PanicIndexOutOfRange
         else (case Atoi (parts ! 1) of Inl e \<Rightarrow> Inl e | Inr n \<Rightarrow> Inr n))
      else Inr sz)"

text \<open>
  The header loop: \<open>head\<close> collects every line read, \<open>size\<close> is the last
  Content-Length seen (\<open>-1\<close> at the start). On an error the Go function returns the
  error together with a partial \<open>head\<close>, which its caller drops; the model returns the
  error alone.
\<close>

lemma ReadSlice_shorter:
  "ReadSlice r = Inr (line, r') \<Longrightarrow> length (rest r') < length (rest r)"
proof -
  assume a: "ReadSlice r = Inr (line, r')"
  let ?suf = "dropWhile (\<lambda>c. c \<noteq> LF) (rest r)"
  from a have ne: "?suf \<noteq> []" and r': "rest r' = tl ?suf"
    by (auto simp: ReadSlice_def Let_def split: if_splits)
  have "length ?suf \<le> length (rest r)" by (rule length_dropWhile_le)
  moreover from ne have "length (tl ?suf) < length ?suf" by (cases ?suf) auto
  ultimately show ?thesis using r' by simp
qed

function readHeaderLines :: "reader \<Rightarrow> bytes \<Rightarrow> int \<Rightarrow> failure + (bytes \<times> int \<times> reader)" where
  "readHeaderLines r head sz =
     (case ReadSlice r of
        Inl e \<Rightarrow> Inl e
      | Inr (line, r') \<Rightarrow>
          (if length (TrimRight line [CR, LF]) = 0 then Inr (head @ line, sz, r')
           else (case findDataSize (TrimRight line [CR, LF]) sz of
                   Inl e \<Rightarrow> Inl e
                 | Inr sz' \<Rightarrow> readHeaderLines r' (head @ line) sz')))"
  by pat_completeness auto
termination
  by (relation "measure (\<lambda>(r, head, sz). length (rest r))")
     (auto dest: ReadSlice_shorter)

declare readHeaderLines.simps [simp del]

definition readChunkHeader :: "reader \<Rightarrow> failure + (bytes \<times> int \<times> reader)" where
  "readChunkHeader r =
     (case ReadSlice r of
        Inl e \<Rightarrow> Inl e
      | Inr (line, r') \<Rightarrow>
          (case readHeaderLines r' ([] @ line) (- 1) of
             Inl e \<Rightarrow> Inl e
           | Inr (head, sz, r'') \<Rightarrow>
               if sz = - 1 then Inl ContentLengthNotFound else Inr (head, sz, r'')))"

subsection \<open>readChunkData\<close>

text \<open>
  \<^verbatim>\<open>make([]byte, size)\<close> panics for a negative size. The loop reads into
  \<^verbatim>\<open>buf[pos:]\<close> until \<open>pos\<close> reaches \<open>size\<close>; \<open>buf\<close> here is the part of the buffer
  filled so far. (The memory limit of \<^verbatim>\<open>make\<close> for a huge size is not modelled.)
\<close>

lemma Read_progress:
  "Read r k = Inr (got, r') \<Longrightarrow> 0 < k \<Longrightarrow> 0 < length got \<and> length got \<le> k"
  by (auto simp: Read_def Let_def split: if_splits list.splits)

function readChunkData_loop :: "reader \<Rightarrow> nat \<Rightarrow> nat \<Rightarrow> bytes \<Rightarrow> failure + (bytes \<times> reader)" where
  "readChunkData_loop r sz pos buf =
     (if pos < sz then
        (case Read r (sz - pos) of
           Inl e \<Rightarrow> Inl e
         | Inr (got, r') \<Rightarrow> readChunkData_loop r' sz (pos + length got) (buf @ got))
      else Inr (buf, r))"
  by pat_completeness auto
termination
proof (relation "measure (\<lambda>(r, sz, pos, buf). sz - pos)", goal_cases)
  case 1
  show ?case by simp
next
  case (2 r sz pos buf x2 got r')
  then have "Read r (sz - pos) = Inr (got, r')" and "0 < sz - pos" by simp_all
  from Read_progress [OF this] have "0 < length got" by simp
  with 2 show ?case by (simp add: diff_less_mono2)
qed

declare readChunkData_loop.simps [simp del]

definition readChunkData :: "reader \<Rightarrow> int \<Rightarrow> failure + (bytes \<times> reader)" where
  "readChunkData r sz =
     (if sz < 0 then Inl PanicMakeSliceLen else readChunkData_loop r (nat sz) 0 [])"

subsection \<open>What the two readers consume\<close>

lemma ReadSlice_consumes:
  assumes "ReadSlice r = Inr (line, r')"
  shows "rest r = line @ rest r'" and "line \<noteq> []" and "sched r' = sched r"
proof -
  let ?pre = "takeWhile (\<lambda>c. c \<noteq> LF) (rest r)"
  let ?suf = "dropWhile (\<lambda>c. c \<noteq> LF) (rest r)"
  from assms have ne: "?suf \<noteq> []" and l: "line = ?pre @ [LF]" and r': "r' = r\<lparr>rest := tl ?suf\<rparr>"
    by (auto simp: ReadSlice_def Let_def split: if_splits)
  from ne have "hd ?suf = LF" using hd_dropWhile [of "\<lambda>c. c \<noteq> LF" "rest r"] by simp
  with ne have "?suf = LF # tl ?suf" by (cases ?suf) auto
  then have "?pre @ [LF] @ tl ?suf = ?pre @ ?suf" by simp
  then show "rest r = line @ rest r'" using l r' by simp
  show "line \<noteq> []" using l by simp
  show "sched r' = sched r" using r' by simp
qed

lemma readHeaderLines_consumes:
  "readHeaderLines r head sz = Inr (head', sz', r') \<Longrightarrow>
   \<exists>c. head' = head @ c \<and> rest r = c @ rest r' \<and> sched r' = sched r"
proof (induction r head sz rule: readHeaderLines.induct)
  case (1 r head sz)
  from "1.prems" obtain line r1 where rs: "ReadSlice r = Inr (line, r1)"
    by (subst (asm) readHeaderLines.simps) (auto split: sum.splits)
  note c = ReadSlice_consumes [OF rs]
  show ?case
  proof (cases "length (TrimRight line [CR, LF]) = 0")
    case True
    with "1.prems" rs have "head' = head @ line" "r' = r1"
      by (subst (asm) readHeaderLines.simps, simp)+
    with c show ?thesis by simp
  next
    case False
    with "1.prems" rs obtain sz1 where
      f: "findDataSize (TrimRight line [CR, LF]) sz = Inr sz1" and
      rec: "readHeaderLines r1 (head @ line) sz1 = Inr (head', sz', r')"
      by (subst (asm) readHeaderLines.simps) (auto split: sum.splits)
    from "1.IH" [OF rs refl False f rec] obtain c' where
      "head' = (head @ line) @ c'" "rest r1 = c' @ rest r'" "sched r' = sched r1"
      by blast
    with c show ?thesis by simp
  qed
qed

lemma readChunkHeader_consumes:
  assumes "readChunkHeader r = Inr (head, sz, r1)"
  shows "rest r = head @ rest r1" and "head \<noteq> []" and "sched r1 = sched r"
proof -
  from assms obtain line r0 where rs: "ReadSlice r = Inr (line, r0)"
    and hl: "readHeaderLines r0 line (- 1) = Inr (head, sz, r1)"
    by (auto simp: readChunkHeader_def split: sum.splits if_splits)
  note c = ReadSlice_consumes [OF rs]
  from readHeaderLines_consumes [OF hl] obtain c' where
    c': "head = line @ c'" "rest r0 = c' @ rest r1" "sched r1 = sched r0"
    by blast
  show "rest r = head @ rest r1" using c c' by simp
  show "head \<noteq> []" using c c' by simp
  show "sched r1 = sched r" using c c' by simp
qed

lemma readChunkData_loop_consumes:
  "readChunkData_loop r sz pos buf = Inr (buf', r') \<Longrightarrow>
   \<exists>c. buf' = buf @ c \<and> rest r = c @ rest r'"
proof (induction r sz pos buf rule: readChunkData_loop.induct)
  case (1 r sz pos buf)
  show ?case
  proof (cases "pos < sz")
    case False
    with "1.prems" show ?thesis by (subst (asm) readChunkData_loop.simps) simp
  next
    case True
    with "1.prems" obtain got r1 where
      rd: "Read r (sz - pos) = Inr (got, r1)" and
      rec: "readChunkData_loop r1 sz (pos + length got) (buf @ got) = Inr (buf', r')"
      by (subst (asm) readChunkData_loop.simps) (auto split: sum.splits)
    from rd have g: "rest r = got @ rest r1"
      by (auto simp: Read_def Let_def split: if_splits)
    from "1.IH" [OF True rd refl rec] obtain c where
      "buf' = (buf @ got) @ c" "rest r1 = c @ rest r'" by blast
    with g show ?thesis by simp
  qed
qed

lemma readChunkData_consumes:
  "readChunkData r sz = Inr (data, r') \<Longrightarrow> rest r = data @ rest r'"
  using readChunkData_loop_consumes [of r "nat sz" 0 "[]" data r']
  by (auto simp: readChunkData_def split: if_splits)

subsection \<open>chunker\<close>

text \<open>
  The run loop. Its result is the sequence of values sent on \<^verbatim>\<open>pubChan\<close> and the final
  value of \<^verbatim>\<open>failure\<close> (\<open>None\<close> for \<^verbatim>\<open>nil\<close>). The \<^verbatim>\<open>select\<close> either receives from
  \<^verbatim>\<open>stopChan\<close> or sends the chunk; \<open>stop = Some k\<close> says that the stop signal is taken
  at the select of iteration \<open>k\<close> (counted from 0), \<open>None\<close> that it never comes.
  A panic of the goroutine is reported as the failure, too.
\<close>

function chunker :: "reader \<Rightarrow> nat option \<Rightarrow> bytes list \<times> failure option" where
  "chunker r stop =
     (case readChunkHeader r of
        Inl e \<Rightarrow> ([], Some e)
      | Inr (head, sz, r1) \<Rightarrow>
          (case readChunkData r1 sz of
             Inl e \<Rightarrow> ([], Some e)
           | Inr (data, r2) \<Rightarrow>
               if stop = Some 0 then ([], None)
               else if sz = 0 then ([head @ data], Some ReceivedFinalChunk)
               else (case chunker r2 (map_option (\<lambda>k. k - 1) stop) of
                       (frames, fl) \<Rightarrow> ((head @ data) # frames, fl))))"
  by pat_completeness auto
termination
proof (relation "measure (\<lambda>(r, stop). length (rest r))", goal_cases)
  case 1
  show ?case by simp
next
  case (2 r stop x2 head x2a sz r1 x2b data r2)
  then have h: "readChunkHeader r = Inr (head, sz, r1)" and d: "readChunkData r1 sz = Inr (data, r2)"
    by simp_all
  from readChunkHeader_consumes(1,2) [OF h] readChunkData_consumes [OF d]
  show ?case by simp
qed

declare chunker.simps [simp del]

section \<open>The broker (pubsub.go)\<close>

text \<open>
  A \<^verbatim>\<open>*Subscriber\<close> is a pointer; the model names it by a number. The broker's state
  is the struct \<^verbatim>\<open>PubSub\<close> together with what its handlers reach through it: which
  delivery channels have been closed, and what each subscriber has received.
  \<^item> \<open>pubChan\<close> is \<open>True\<close> when the field \<^verbatim>\<open>pubChan\<close> is not \<^verbatim>\<open>nil\<close>;
  \<^item> \<open>subscribers\<close> holds the keys of the map, in the order the \<^verbatim>\<open>range\<close> loops
    visit them (Go leaves that order open);
  \<^item> \<open>stopTimer\<close> is \<open>True\<close> from the \<^verbatim>\<open>Reset(stopDelay)\<close> of the timer until the
    loop receives from its channel.
\<close>

type_synonym sub = nat

record PubSub =
  chunkerStarted :: bool
  pubChan :: bool
  subscribers :: "sub list"
  stopTimer :: bool
  closedChans :: "sub set"
  received :: "sub \<Rightarrow> bytes list"

datatype chan_panic =
    CloseOfClosedChannel \<comment> \<open>panic: close of closed channel\<close>
  | SendOnClosedChannel \<comment> \<open>panic: send on closed channel\<close>

text \<open>\<^verbatim>\<open>NewPubSub\<close>: no subscriber, no channel, and a timer that has fired and been drained.\<close>

definition NewPubSub :: PubSub where
  "NewPubSub =
     \<lparr>chunkerStarted = False, pubChan = False, subscribers = [], stopTimer = False,
      closedChans = {}, received = (\<lambda>s. [])\<rparr>"

subsection \<open>The Chunker the broker holds\<close>

text \<open>
  Modelled from the spec: the type \<^verbatim>\<open>Chunker\<close> with its methods \<^verbatim>\<open>Started\<close>,
  \<^verbatim>\<open>Connect\<close>, \<^verbatim>\<open>Start\<close> and \<^verbatim>\<open>Stop\<close> is not among the source files. The spec
  gives its state as \<open>{connection, started: bool}\<close>, created on first demand and reset
  to not-started when it is stopped. Whether \<^verbatim>\<open>Connect\<close> succeeds is decided by the
  upstream server, so it is an input (\<open>ok\<close>).
\<close>

definition Chunker_Started :: "PubSub \<Rightarrow> bool" where
  "Chunker_Started st = chunkerStarted st"

definition Chunker_Connect :: "bool \<Rightarrow> PubSub \<Rightarrow> bool \<times> PubSub" where
  "Chunker_Connect ok st = (if ok then (True, st\<lparr>chunkerStarted := True\<rparr>) else (False, st))"

definition Chunker_Stop :: "PubSub \<Rightarrow> PubSub" where
  "Chunker_Stop st = st\<lparr>chunkerStarted := False\<rparr>"

subsection \<open>The handlers\<close>

text \<open>\<^verbatim>\<open>startChunker\<close>: the first component of the result is \<open>True\<close> when it returns \<^verbatim>\<open>nil\<close>.\<close>

definition startChunker :: "bool \<Rightarrow> PubSub \<Rightarrow> bool \<times> PubSub" where
  "startChunker ok st =
     (if Chunker_Started st then (True, st)
      else (case Chunker_Connect ok st of
              (False, st') \<Rightarrow> (False, st')
            | (True, st') \<Rightarrow> (True, st'\<lparr>pubChan := True\<rparr>)))"

definition stopChunker :: "PubSub \<Rightarrow> PubSub" where
  "stopChunker st = (if pubChan st then Chunker_Stop st else st)\<lparr>pubChan := False\<rparr>"

text \<open>
  \<^verbatim>\<open>doUnsubscribe\<close>: when the set becomes empty the timer is stopped, its channel
  drained and the timer reset, which leaves it armed.
\<close>

definition doUnsubscribe :: "sub \<Rightarrow> PubSub \<Rightarrow> PubSub" where
  "doUnsubscribe s st =
     (if s \<notin> set (subscribers st) then st
      else let st' = st\<lparr>subscribers := removeAll s (subscribers st)\<rparr>
           in if length (subscribers st') = 0 then st'\<lparr>stopTimer := True\<rparr> else st')"

text \<open>
  \<^verbatim>\<open>stopSubscribers\<close> ranges over the map while \<^verbatim>\<open>doUnsubscribe\<close> deletes the entry
  just visited, so every entry is visited once. Closing a closed channel panics.
\<close>

fun stopSubscribers_loop :: "sub list \<Rightarrow> PubSub \<Rightarrow> chan_panic + PubSub" where
  "stopSubscribers_loop [] st = Inr st"
| "stopSubscribers_loop (s # ss) st =
     (if s \<in> closedChans st then Inl CloseOfClosedChannel
      else stopSubscribers_loop ss
             (doUnsubscribe s (st\<lparr>closedChans := insert s (closedChans st)\<rparr>)))"

definition stopSubscribers :: "PubSub \<Rightarrow> chan_panic + PubSub" where
  "stopSubscribers st = stopSubscribers_loop (subscribers st) st"

text \<open>
  \<^verbatim>\<open>doPublish\<close>: one \<^verbatim>\<open>select\<close> with a \<^verbatim>\<open>default\<close> branch per subscriber. The channels
  are unbuffered, so the send proceeds exactly when the subscriber's responder is
  waiting in its receive; \<open>ready s\<close> says whether it is when its turn comes. A send on
  a closed channel panics.
\<close>

fun doPublish_loop :: "bytes \<Rightarrow> (sub \<Rightarrow> bool) \<Rightarrow> sub list \<Rightarrow> PubSub \<Rightarrow> chan_panic + PubSub" where
  "doPublish_loop d ready [] st = Inr st"
| "doPublish_loop d ready (s # ss) st =
     (if s \<in> closedChans st then Inl SendOnClosedChannel
      else if ready s then
        doPublish_loop d ready ss (st\<lparr>received := (received st)(s := received st s @ [d])\<rparr>)
      else doPublish_loop d ready ss st)"

definition doPublish :: "bytes \<Rightarrow> (sub \<Rightarrow> bool) \<Rightarrow> PubSub \<Rightarrow> chan_panic + PubSub" where
  "doPublish d ready st = doPublish_loop d ready (subscribers st) st"

text \<open>\<^verbatim>\<open>doSubscribe\<close>; \<open>ok\<close> is the outcome of the connection attempt, should one be made.\<close>

definition doSubscribe :: "sub \<Rightarrow> bool \<Rightarrow> PubSub \<Rightarrow> chan_panic + PubSub" where
  "doSubscribe s ok st =
     (let st1 = st\<lparr>subscribers := List.insert s (subscribers st)\<rparr>
      in if \<not> pubChan st1 then
           (case startChunker ok st1 of
              (True, st2) \<Rightarrow> Inr st2
            | (False, st2) \<Rightarrow> stopSubscribers st2)
         else Inr st1)"

subsection \<open>The event loop\<close>

datatype event =
    Publish bytes "sub \<Rightarrow> bool" \<comment> \<open>a frame received from \<^verbatim>\<open>pubChan\<close>\<close>
  | ProducerEnded \<comment> \<open>\<^verbatim>\<open>pubChan\<close> was closed\<close>
  | Subscribe sub bool \<comment> \<open>a subscriber received from \<^verbatim>\<open>subChan\<close>\<close>
  | Unsubscribe sub \<comment> \<open>a subscriber received from \<^verbatim>\<open>unsubChan\<close>\<close>
  | IdleTimeout \<comment> \<open>a value received from \<^verbatim>\<open>stopTimer.C\<close>\<close>

fun loop_step :: "event \<Rightarrow> PubSub \<Rightarrow> chan_panic + PubSub" where
  "loop_step (Publish d ready) st = doPublish d ready st"
| "loop_step ProducerEnded st = stopSubscribers (stopChunker st)"
| "loop_step (Subscribe s ok) st = doSubscribe s ok st"
| "loop_step (Unsubscribe s) st = Inr (doUnsubscribe s st)"
| "loop_step IdleTimeout st =
     (let st' = st\<lparr>stopTimer := False\<rparr>
      in Inr (if length (subscribers st') = 0 then stopChunker st' else st'))"

text \<open>
  Which case of the \<^verbatim>\<open>select\<close> can be taken: a receive from a \<^verbatim>\<open>nil\<close> channel never
  proceeds, the timer's channel holds a value only after the armed timer has fired,
  and a responder subscribes a subscriber it has just created.
\<close>

fun enabled :: "event \<Rightarrow> PubSub \<Rightarrow> bool" where
  "enabled (Publish d ready) st = pubChan st"
| "enabled ProducerEnded st = pubChan st"
| "enabled (Subscribe s ok) st = (s \<notin> set (subscribers st) \<and> s \<notin> closedChans st)"
| "enabled (Unsubscribe s) st = True"
| "enabled IdleTimeout st = stopTimer st"

inductive reachable :: "PubSub \<Rightarrow> bool" where
  start: "reachable NewPubSub"
| step: "reachable st \<Longrightarrow> enabled e st \<Longrightarrow> loop_step e st = Inr st' \<Longrightarrow> reachable st'"

text \<open>
  The same as a function: the state after a list of events, \<open>None\<close> when one of them
  cannot be taken in the state it meets or its handler panics.
\<close>

fun run_events :: "event list \<Rightarrow> PubSub \<Rightarrow> PubSub option" where
  "run_events [] st = Some st"
| "run_events (e # es) st =
     (if enabled e st then
        (case loop_step e st of Inl p \<Rightarrow> None | Inr st' \<Rightarrow> run_events es st')
      else None)"

section \<open>The stream responder (pubsub.go)\<close>

subsection \<open>parseSendInterval\<close>

text \<open>
  \<^verbatim>\<open>strconv.ParseFloat\<close> is a library function and is not modelled: what it returns
  for the request's \<^verbatim>\<open>fps\<close> value is an input, \<open>None\<close> when it returns an error (as it
  does for the empty string that \<^verbatim>\<open>FormValue\<close> gives for an absent parameter). A
  finite \<^verbatim>\<open>float64\<close> is modelled by the number it denotes. The quotient \<^verbatim>\<open>1000.0/f\<close>
  is the exact quotient rounded to a \<^verbatim>\<open>float64\<close>; the rounding is the parameter \<open>rnd\<close>
  (it leaves a quotient that is a \<^verbatim>\<open>float64\<close> itself, such as a small whole number or
  a half, as it is). Division by zero gives an infinity; the sign of a zero is not
  modelled, and does not matter below, where both infinities convert alike.
\<close>

datatype float64 = Finite rat | PosInf | NegInf | NaN

definition float_div :: "(rat \<Rightarrow> rat) \<Rightarrow> rat \<Rightarrow> float64 \<Rightarrow> float64" where
  "float_div rnd a x =
     (case x of
        Finite f \<Rightarrow> if f = 0 then (if 0 \<le> a then PosInf else NegInf) else Finite (rnd (a / f))
      | PosInf \<Rightarrow> Finite 0
      | NegInf \<Rightarrow> Finite 0
      | NaN \<Rightarrow> NaN)"

definition float_trunc :: "rat \<Rightarrow> int" where
  "float_trunc q = (if 0 \<le> q then \<lfloor>q\<rfloor> else \<lceil>q\<rceil>)"

text \<open>
  The conversion \<^verbatim>\<open>time.Duration(x)\<close> of a \<^verbatim>\<open>float64\<close> to \<^verbatim>\<open>int64\<close> discards the
  fraction. For a value that does not fit, Go leaves the result to the implementation;
  the model takes that of amd64, the smallest \<^verbatim>\<open>int64\<close>.
\<close>

definition Duration_of_float :: "float64 \<Rightarrow> 64 word" where
  "Duration_of_float x =
     (case x of
        Finite q \<Rightarrow>
          if - (2 ^ 63) \<le> float_trunc q \<and> float_trunc q < 2 ^ 63 then word_of_int (float_trunc q)
          else word_of_int (- (2 ^ 63))
      | _ \<Rightarrow> word_of_int (- (2 ^ 63)))"

definition Millisecond :: "64 word" where
  "Millisecond = 1000000"

text \<open>The result is a \<^verbatim>\<open>time.Duration\<close>: nanoseconds, as the signed reading of the 64 bits.\<close>

definition parseSendInterval :: "(rat \<Rightarrow> rat) \<Rightarrow> float64 option \<Rightarrow> int" where
  "parseSendInterval rnd fps =
     (case fps of
        None \<Rightarrow> 0
      | Some f \<Rightarrow> sint (Duration_of_float (float_div rnd 1000 f) * Millisecond))"

subsection \<open>The receive loop of ServeHTTP\<close>

text \<open>
  A \<^verbatim>\<open>time.Time\<close> is a number of nanoseconds. \<^verbatim>\<open>Time.Sub\<close> gives the difference as a
  \<^verbatim>\<open>Duration\<close>, the largest or smallest one when the difference does not fit.
\<close>

definition Time_Sub :: "int \<Rightarrow> int \<Rightarrow> int" where
  "Time_Sub t u =
     (let d = t - u
      in if d < - (2 ^ 63) then - (2 ^ 63) else if 2 ^ 63 - 1 < d then 2 ^ 63 - 1 else d)"

text \<open>
  What one turn of the loop takes from outside: the frame received, the three readings
  of \<^verbatim>\<open>time.Now()\<close> it may make (for the duration limit, for the throttle, for
  \<^verbatim>\<open>lastSendTime\<close>) and whether writing the part to the client works.
\<close>

datatype write_outcome = Written | CreatePartFailed | PartWriteFailed

record arrival =
  payload :: bytes
  nowAfter :: int
  nowSub :: int
  nowSend :: int
  outcome :: write_outcome

datatype recv =
    Chunk arrival \<comment> \<open>a frame received from \<^verbatim>\<open>sub.ChunkChannel\<close>\<close>
  | ChanClosed \<comment> \<open>the receive reports the channel closed\<close>
  | CtxDone \<comment> \<open>\<^verbatim>\<open>r.Context().Done()\<close>: the client has gone\<close>

record responder =
  data :: bytes
  chunkOk :: bool
  headersSent :: bool
  lastSendTime :: int
  parts :: "bytes list"

text \<open>The variables as declared before the loop: all zero values.\<close>

definition responder0 :: responder where
  "responder0 = \<lparr>data = [], chunkOk = False, headersSent = False, lastSendTime = 0, parts = []\<rparr>"

datatype loop_exit =
    Break \<comment> \<open>\<^verbatim>\<open>break LOOP\<close>\<close>
  | Return \<comment> \<open>\<^verbatim>\<open>return\<close> after a failed write\<close>
  | Blocked \<comment> \<open>waiting in the \<^verbatim>\<open>select\<close>: no further event\<close>

text \<open>
  The end of a turn that sends: \<^verbatim>\<open>lastSendTime\<close> is set, the part created and the frame
  written and flushed. The result says whether both writes worked.
\<close>

definition sendPart :: "arrival \<Rightarrow> responder \<Rightarrow> bool \<times> responder" where
  "sendPart a st =
     (let st' = st\<lparr>lastSendTime := nowSend a\<rparr>
      in (case outcome a of
            CreatePartFailed \<Rightarrow> (False, st')
          | PartWriteFailed \<Rightarrow> (False, st')
          | Written \<Rightarrow> (True, st'\<lparr>parts := parts st' @ [data st']\<rparr>)))"

fun serveLoop :: "int \<Rightarrow> int \<Rightarrow> recv list \<Rightarrow> responder \<Rightarrow> loop_exit \<times> responder" where
  "serveLoop sendInterval endTime [] st = (Blocked, st)"
| "serveLoop sendInterval endTime (ChanClosed # evs) st =
     (Break, st\<lparr>data := [], chunkOk := False\<rparr>)"
| "serveLoop sendInterval endTime (CtxDone # evs) st = (Break, st)"
| "serveLoop sendInterval endTime (Chunk a # evs) st =
     (let st1 = st\<lparr>data := payload a, chunkOk := True\<rparr>
      in if endTime < nowAfter a then (Break, st1)
         else if \<not> headersSent st1 then
           (case sendPart a (st1\<lparr>headersSent := True\<rparr>) of
              (False, st2) \<Rightarrow> (Return, st2)
            | (True, st2) \<Rightarrow> serveLoop sendInterval endTime evs st2)
         else if 0 < sendInterval \<and> Time_Sub (nowSub a) (lastSendTime st1) < sendInterval then
           serveLoop sendInterval endTime evs st1
         else
           (case sendPart a st1 of
              (False, st2) \<Rightarrow> (Return, st2)
            | (True, st2) \<Rightarrow> serveLoop sendInterval endTime evs st2))"

subsection \<open>ServeHTTP\<close>

text \<open>
  The request as far as the handler looks at it, and \<open>endTime\<close> as computed before
  the loop from the clock and the configured stream duration.
\<close>

record request =
  httpMethod :: string
  formValid :: bool
  fpsParsed :: "float64 option"
  isFlusher :: bool

datatype response =
    MethodNotAllowed \<comment> \<open>405 with the \<^verbatim>\<open>Allow\<close> header\<close>
  | BadRequest \<comment> \<open>400 "Invalid query"\<close>
  | NotFlushable \<comment> \<open>return without a response of the handler's own\<close>
  | ServiceUnavailable \<comment> \<open>503 "Stream failed"\<close>
  | MultipartClosed \<comment> \<open>\<^verbatim>\<open>mw.Close()\<close>\<close>
  | WriteAborted \<comment> \<open>return after a failed write\<close>
  | StillWaiting \<comment> \<open>the handler has not returned\<close>

definition ServeHTTP ::
  "(rat \<Rightarrow> rat) \<Rightarrow> request \<Rightarrow> int \<Rightarrow> recv list \<Rightarrow> response \<times> responder" where
  "ServeHTTP rnd r endTime evs =
     (if httpMethod r \<noteq> ''GET'' \<and> httpMethod r \<noteq> ''HEAD'' then (MethodNotAllowed, responder0)
      else if \<not> formValid r then (BadRequest, responder0)
      else if \<not> isFlusher r then (NotFlushable, responder0)
      else (case serveLoop (parseSendInterval rnd (fpsParsed r)) endTime evs responder0 of
              (Blocked, st) \<Rightarrow> (StillWaiting, st)
            | (Return, st) \<Rightarrow> (WriteAborted, st)
            | (Break, st) \<Rightarrow>
                if \<not> headersSent st \<and> \<not> chunkOk st then (ServiceUnavailable, st)
                else (MultipartClosed, st)))"

subsection \<open>The throttle as the specification words it\<close>

text \<open>
  Written from the specification's words, to be compared with \<^verbatim>\<open>ServeHTTP\<close>: with a
  minimum interval \<open>iv\<close>, the first frame a client's responder receives is sent; a
  later frame is skipped when the interval has not elapsed since the last frame
  actually sent to this client, and is sent otherwise. The result is the frames sent,
  in order; \<open>prev\<close> is the time the last frame was sent at, \<open>None\<close> before the first.
\<close>

fun spec_throttle :: "int \<Rightarrow> int option \<Rightarrow> arrival list \<Rightarrow> arrival list" where
  "spec_throttle iv prev [] = []"
| "spec_throttle iv prev (a # as) =
     (case prev of
        None \<Rightarrow> a # spec_throttle iv (Some (nowSend a)) as
      | Some t \<Rightarrow>
          if nowSub a - t < iv then spec_throttle iv prev as
          else a # spec_throttle iv (Some (nowSend a)) as)"

text \<open>
  A minimum interval between the frames of a list: each frame is received at least
  \<open>iv\<close> after the frame before it was sent.
\<close>

fun min_gap :: "int \<Rightarrow> arrival list \<Rightarrow> bool" where
  "min_gap iv [] = True"
| "min_gap iv [x] = True"
| "min_gap iv (x # y # ys) = (iv \<le> nowSub y - nowSend x \<and> min_gap iv (y # ys))"

section \<open>The lines of a chunk as they stand in the stream\<close>

text \<open>
  A line that \<^verbatim>\<open>ReadSlice\<close> can return: it ends in a line feed, has no other line
  feed, and fits the reader's buffer.
\<close>

definition is_line :: "bytes \<Rightarrow> bool" where
  "is_line l = (l \<noteq> [] \<and> last l = LF \<and> LF \<notin> set (butlast l) \<and> length l \<le> defaultBufSize)"

text \<open>The line that ends the header section: nothing but carriage returns and line feeds.\<close>

definition blank_line :: "bytes \<Rightarrow> bool" where
  "blank_line l = (is_line l \<and> TrimRight l [CR, LF] = [])"

text \<open>A header line whose key, the text before the first \<^verbatim>\<open>": "\<close>, is not Content-Length.\<close>

definition other_header :: "bytes \<Rightarrow> bool" where
  "other_header l =
     (is_line l \<and> TrimRight l [CR, LF] \<noteq> []
      \<and> \<not> EqualFold (SplitN2 (TrimRight l [CR, LF]) '': '' ! 0) ''Content-Length'')"


section \<open>Properties of the chunk parser\<close>

subsection \<open>Reading well-formed lines\<close>

lemma ReadSlice_line:
  assumes "is_line l"
  shows "ReadSlice \<lparr>rest = l @ t, sched = sc\<rparr> = Inr (l, \<lparr>rest = t, sched = sc\<rparr>)"
proof -
  from assms have l: "l = butlast l @ [LF]" and nl: "LF \<notin> set (butlast l)"
    and len: "length l \<le> defaultBufSize"
    by (auto simp: is_line_def) (metis append_butlast_last_id)
  let ?b = "butlast l"
  have e: "l @ t = ?b @ LF # t" using l by (metis append_Cons append_Nil append_assoc)
  have tw: "takeWhile (\<lambda>c. c \<noteq> LF) (?b @ LF # t) = ?b"
    using nl by (subst takeWhile_append2) auto
  have dw: "dropWhile (\<lambda>c. c \<noteq> LF) (?b @ LF # t) = LF # t"
    using nl by (subst dropWhile_append2) auto
  have "length ?b < defaultBufSize" using len l by (metis length_append_singleton less_eq_Suc_le)
  then show ?thesis
    unfolding ReadSlice_def Let_def using l by (simp add: e tw dw)
qed

lemma findDataSize_other:
  "other_header l \<Longrightarrow> findDataSize (TrimRight l [CR, LF]) sz = Inr sz"
  by (simp add: other_header_def findDataSize_def Let_def)



lemma readHeaderLines_other:
  assumes "other_header l"
  shows "readHeaderLines \<lparr>rest = l @ t, sched = sc\<rparr> head sz =
         readHeaderLines \<lparr>rest = t, sched = sc\<rparr> (head @ l) sz"
proof -
  from assms have "is_line l" and ne: "TrimRight l [CR, LF] \<noteq> []" by (simp_all add: other_header_def)
  from ReadSlice_line [OF this(1)] ne findDataSize_other [OF assms] show ?thesis
    by (subst readHeaderLines.simps) simp
qed

lemma readHeaderLines_others:
  "list_all other_header hs \<Longrightarrow>
   readHeaderLines \<lparr>rest = concat hs @ t, sched = sc\<rparr> head sz =
   readHeaderLines \<lparr>rest = t, sched = sc\<rparr> (head @ concat hs) sz"
  by (induction hs arbitrary: head) (simp_all add: readHeaderLines_other)


lemma readHeaderLines_blank:
  assumes "blank_line e"
  shows "readHeaderLines \<lparr>rest = e @ t, sched = sc\<rparr> head sz =
         Inr (head @ e, sz, \<lparr>rest = t, sched = sc\<rparr>)"
proof -
  from assms have "is_line e" and "TrimRight e [CR, LF] = []" by (simp_all add: blank_line_def)
  from ReadSlice_line [OF this(1)] this(2) show ?thesis
    by (subst readHeaderLines.simps) simp
qed



subsection \<open>A header section without Content-Length\<close>

text \<open>
  Claim C3. When the next chunk is a boundary line, header lines none of which has the
  key Content-Length, and the blank line, \<^verbatim>\<open>readChunkHeader\<close> fails with the error
  "Content-Length chunk header not found", and the run loop ends with that failure
  without sending a frame.
\<close>

theorem C3_missing_content_length:
  assumes "is_line b" "list_all other_header hs" "blank_line e"
  shows "readChunkHeader \<lparr>rest = b @ concat hs @ e @ nxt, sched = sc\<rparr> = Inl ContentLengthNotFound
       \<and> chunker \<lparr>rest = b @ concat hs @ e @ nxt, sched = sc\<rparr> stop
           = ([], Some ContentLengthNotFound)"
proof -
  have h: "readChunkHeader \<lparr>rest = b @ concat hs @ e @ nxt, sched = sc\<rparr> = Inl ContentLengthNotFound"
    using assms
    by (simp add: readChunkHeader_def ReadSlice_line readHeaderLines_others readHeaderLines_blank)
  then show ?thesis by (subst chunker.simps) simp
qed

theorem C3_missing_content_length_witness:
  "is_line (''--b'' @ [CR, LF])
   \<and> list_all other_header [''Content-Type: image/jpeg'' @ [CR, LF]]
   \<and> blank_line [CR, LF]
   \<and> chunker \<lparr>rest = ''--b'' @ [CR, LF] @ ''Content-Type: image/jpeg'' @ [CR, LF] @ [CR, LF] @ ''hello'',
              sched = []\<rparr> None = ([], Some ContentLengthNotFound)"
proof -
  have 1: "is_line (''--b'' @ [CR, LF])"
    by (simp add: is_line_def LF_def CR_def defaultBufSize_def)
  have 2: "list_all other_header [''Content-Type: image/jpeg'' @ [CR, LF]]"
    by (simp add: other_header_def is_line_def LF_def CR_def defaultBufSize_def TrimRight_def
        SplitN2_def EqualFold_def toLower_def)
  have 3: "blank_line [CR, LF]"
    by (simp add: blank_line_def is_line_def LF_def CR_def defaultBufSize_def TrimRight_def)
  from C3_missing_content_length [OF 1 2 3, of "''hello''" "[]" None] 1 2 3
  show ?thesis by simp
qed

subsection \<open>The frame of a chunk\<close>





subsection \<open>The chunk of length zero\<close>




subsection \<open>Header sections the parser accepts or panics on\<close>

text \<open>
  Claim C9. The header \<^verbatim>\<open>Content-Length: -5\<close> is accepted: \<^verbatim>\<open>readChunkHeader\<close> returns
  the size \<open>-5\<close> without an error. \<^verbatim>\<open>readChunkData\<close> called with any negative size panics
  in \<^verbatim>\<open>make\<close>, so the run loop dies on this input.
\<close>

theorem C9_negative_content_length_panics:
  "readChunkHeader \<lparr>rest = ''--b'' @ [LF] @ ''Content-Length: -5'' @ [LF, LF] @ ''abcde'', sched = []\<rparr>
     = Inr (''--b'' @ [LF] @ ''Content-Length: -5'' @ [LF, LF], - 5, \<lparr>rest = ''abcde'', sched = []\<rparr>)
   \<and> readChunkData r (- 1 - int k) = Inl PanicMakeSliceLen
   \<and> chunker \<lparr>rest = ''--b'' @ [LF] @ ''Content-Length: -5'' @ [LF, LF] @ ''abcde'', sched = []\<rparr> stop
     = ([], Some PanicMakeSliceLen)"
proof -
  have h: "readChunkHeader \<lparr>rest = ''--b'' @ [LF] @ ''Content-Length: -5'' @ [LF, LF] @ ''abcde'', sched = []\<rparr>
     = Inr (''--b'' @ [LF] @ ''Content-Length: -5'' @ [LF, LF], - 5, \<lparr>rest = ''abcde'', sched = []\<rparr>)"
    by code_simp
  have d: "readChunkData r (- 1 - int k) = Inl PanicMakeSliceLen" for r k
    by (simp add: readChunkData_def)
  have d5: "readChunkData r (- 5) = Inl PanicMakeSliceLen" for r
    by (simp add: readChunkData_def)
  show ?thesis
    by (intro conjI, rule h, rule d, subst chunker.simps, simp only: h) (simp add: d5)
qed

lemma cut_None_iff:
  "sep \<noteq> [] \<Longrightarrow> cut sep s = None \<longleftrightarrow> \<not> (\<exists>a b. s = a @ sep @ b)"
proof (induction s)
  case Nil
  then show ?case by simp
next
  case (Cons c cs)
  show ?case
  proof (cases "prefix sep (c # cs)")
    case True
    then obtain b where "c # cs = sep @ b" by (auto simp: prefix_def)
    then have "c # cs = [] @ sep @ b" by simp
    then have "\<exists>a b. c # cs = a @ sep @ b" by blast
    with True show ?thesis by simp
  next
    case False
    have "(\<exists>a b. c # cs = a @ sep @ b) \<longleftrightarrow> (\<exists>a b. cs = a @ sep @ b)"
    proof
      assume "\<exists>a b. c # cs = a @ sep @ b"
      then obtain a b where ab: "c # cs = a @ sep @ b" by blast
      with False have "a \<noteq> []" by (auto simp: prefix_def)
      then obtain a' where "a = c # a'" using ab by (cases a) auto
      with ab have "cs = a' @ sep @ b" by simp
      then show "\<exists>a b. cs = a @ sep @ b" by blast
    next
      assume "\<exists>a b. cs = a @ sep @ b"
      then obtain a b where "cs = a @ sep @ b" by blast
      then have "c # cs = (c # a) @ sep @ b" by simp
      then show "\<exists>a b. c # cs = a @ sep @ b" by blast
    qed
    moreover have "cut sep (c # cs) = None \<longleftrightarrow> cut sep cs = None"
      using False by (simp split: option.splits)
    ultimately show ?thesis using Cons.IH [OF Cons.prems] by simp
  qed
qed

lemma Atoi_no_panic: "Atoi v \<noteq> Inl PanicIndexOutOfRange"
  by (simp add: Atoi_def Let_def)

text \<open>
  Claim C10. Parsing a header line panics with an index out of range exactly when the
  line has no \<^verbatim>\<open>": "\<close> and is, in any case, the text \<^verbatim>\<open>Content-Length\<close>; and
  \<^verbatim>\<open>readChunkHeader\<close> does so on a chunk with such a line.
\<close>

theorem C10_key_without_separator_panics:
  "(findDataSize lineStr sz = Inl PanicIndexOutOfRange
      \<longleftrightarrow> (\<nexists>a b. lineStr = a @ '': '' @ b) \<and> EqualFold lineStr ''Content-Length'')
   \<and> readChunkHeader \<lparr>rest = ''--b'' @ [LF] @ ''Content-Length'' @ [LF] @ nxt, sched = sc\<rparr>
       = Inl PanicIndexOutOfRange"
proof
  have sep: "'': '' \<noteq> []" by simp
  show "findDataSize lineStr sz = Inl PanicIndexOutOfRange
      \<longleftrightarrow> (\<nexists>a b. lineStr = a @ '': '' @ b) \<and> EqualFold lineStr ''Content-Length''"
  proof (cases "cut '': '' lineStr")
    case None
    with cut_None_iff [OF sep, of lineStr] show ?thesis
      by (simp add: findDataSize_def SplitN2_def Let_def)
  next
    case (Some p)
    obtain k v where p: "p = (k, v)" by (cases p)
    from Some cut_None_iff [OF sep, of lineStr] have "\<exists>a b. lineStr = a @ '': '' @ b" by simp
    with Some p Atoi_no_panic [of v] show ?thesis
      by (auto simp: findDataSize_def SplitN2_def Let_def split: sum.splits)
  qed
next
  define bl where "bl = ''--b'' @ [LF]"
  define cl where "cl = ''Content-Length'' @ [LF]"
  have l1: "is_line bl" by (simp add: bl_def is_line_def LF_def defaultBufSize_def)
  have l2: "is_line cl" by (simp add: cl_def is_line_def LF_def defaultBufSize_def)
  have t: "TrimRight cl [CR, LF] = ''Content-Length''"
    by (simp add: cl_def TrimRight_def LF_def CR_def)
  have f: "findDataSize ''Content-Length'' (- 1) = Inl PanicIndexOutOfRange"
    by (simp add: findDataSize_def SplitN2_def EqualFold_def)
  have "readHeaderLines \<lparr>rest = cl @ nxt, sched = sc\<rparr> bl (- 1) = Inl PanicIndexOutOfRange"
    by (subst readHeaderLines.simps) (simp add: ReadSlice_line [OF l2] t f)
  with ReadSlice_line [OF l1, of "cl @ nxt" sc]
  have "readChunkHeader \<lparr>rest = bl @ cl @ nxt, sched = sc\<rparr> = Inl PanicIndexOutOfRange"
    by (simp add: readChunkHeader_def)
  then show "readChunkHeader \<lparr>rest = ''--b'' @ [LF] @ ''Content-Length'' @ [LF] @ nxt, sched = sc\<rparr>
       = Inl PanicIndexOutOfRange"
    by (simp add: bl_def cl_def)
qed

section \<open>Properties of the broker\<close>

subsection \<open>What the loops over the subscribers do\<close>

lemma doUnsubscribe_subscribers:
  "subscribers (doUnsubscribe s st) = removeAll s (subscribers st)"
  by (simp add: doUnsubscribe_def Let_def)

lemma doUnsubscribe_fields:
  "pubChan (doUnsubscribe s st) = pubChan st"
  "chunkerStarted (doUnsubscribe s st) = chunkerStarted st"
  "closedChans (doUnsubscribe s st) = closedChans st"
  "received (doUnsubscribe s st) = received st"
  "set (subscribers (doUnsubscribe s st)) = set (subscribers st) - {s}"
  by (simp_all add: doUnsubscribe_subscribers) (simp_all add: doUnsubscribe_def Let_def)

lemma stopSubscribers_loop_result:
  "distinct ss \<Longrightarrow> set ss \<inter> closedChans st = {} \<Longrightarrow>
   \<exists>st'. stopSubscribers_loop ss st = Inr st'
       \<and> set (subscribers st') = set (subscribers st) - set ss
       \<and> closedChans st' = closedChans st \<union> set ss
       \<and> pubChan st' = pubChan st \<and> chunkerStarted st' = chunkerStarted st
       \<and> received st' = received st"
proof (induction ss arbitrary: st)
  case Nil
  then show ?case by simp
next
  case (Cons s ss)
  let ?st2 = "doUnsubscribe s (st\<lparr>closedChans := insert s (closedChans st)\<rparr>)"
  from Cons.prems have s: "s \<notin> closedChans st" and d: "distinct ss"
    and "set ss \<inter> closedChans ?st2 = {}"
    by (auto simp: doUnsubscribe_fields)
  from Cons.IH [OF d this(3)] obtain st' where
    "stopSubscribers_loop ss ?st2 = Inr st'"
    "set (subscribers st') = set (subscribers ?st2) - set ss"
    "closedChans st' = closedChans ?st2 \<union> set ss"
    "pubChan st' = pubChan ?st2" "chunkerStarted st' = chunkerStarted ?st2"
    "received st' = received ?st2"
    by blast
  with s show ?case by (auto simp: doUnsubscribe_fields)
qed

lemma doPublish_loop_result:
  "distinct ss \<Longrightarrow> set ss \<inter> closedChans st = {} \<Longrightarrow>
   doPublish_loop d ready ss st =
     Inr (st\<lparr>received := (\<lambda>x. if x \<in> set ss \<and> ready x then received st x @ [d] else received st x)\<rparr>)"
proof (induction ss arbitrary: st)
  case Nil
  then show ?case by simp
next
  case (Cons s ss)
  then have s: "s \<notin> closedChans st" "s \<notin> set ss" and d: "distinct ss"
    and c: "set ss \<inter> closedChans st = {}" by auto
  show ?case
  proof (cases "ready s")
    case True
    let ?st2 = "st\<lparr>received := (received st)(s := received st s @ [d])\<rparr>"
    from c have "set ss \<inter> closedChans ?st2 = {}" by simp
    note ih = Cons.IH [OF d this]
    have "(\<lambda>x. if x \<in> set ss \<and> ready x then received ?st2 x @ [d] else received ?st2 x) =
          (\<lambda>x. if x \<in> set (s # ss) \<and> ready x then received st x @ [d] else received st x)"
      using True s by (auto simp: fun_eq_iff)
    with ih True s show ?thesis by simp
  next
    case False
    have "(\<lambda>x. if x \<in> set ss \<and> ready x then received st x @ [d] else received st x) =
          (\<lambda>x. if x \<in> set (s # ss) \<and> ready x then received st x @ [d] else received st x)"
      using False by (auto simp: fun_eq_iff)
    with Cons.IH [OF d c] False s show ?thesis by simp
  qed
qed

lemma doSubscribe_failed_start:
  assumes "\<not> pubChan st" and "\<not> chunkerStarted st"
    and "distinct (subscribers st)" and "\<forall>x \<in> set (subscribers st). x \<notin> closedChans st"
    and "s \<notin> closedChans st"
  shows "\<exists>st'. doSubscribe s False st = Inr st'
     \<and> subscribers st' = []
     \<and> closedChans st' = closedChans st \<union> set (subscribers st) \<union> {s}
     \<and> \<not> pubChan st' \<and> \<not> chunkerStarted st'"
proof -
  let ?st1 = "st\<lparr>subscribers := List.insert s (subscribers st)\<rparr>"
  have d: "distinct (subscribers ?st1)" using assms(3) by simp
  have c: "set (subscribers ?st1) \<inter> closedChans ?st1 = {}" using assms(4,5) by auto
  from stopSubscribers_loop_result [OF d c] obtain st' where
    r: "stopSubscribers_loop (subscribers ?st1) ?st1 = Inr st'"
    "set (subscribers st') = set (subscribers ?st1) - set (subscribers ?st1)"
    "closedChans st' = closedChans ?st1 \<union> set (subscribers ?st1)"
    "pubChan st' = pubChan ?st1" "chunkerStarted st' = chunkerStarted ?st1"
    by blast
  have "doSubscribe s False st = stopSubscribers ?st1"
    using assms(1,2)
    by (simp add: doSubscribe_def startChunker_def Chunker_Started_def Chunker_Connect_def Let_def)
  with r assms(1,2) show ?thesis by (auto simp: stopSubscribers_def)
qed

subsection \<open>Publishing\<close>

text \<open>
  Claim C5. In a state where the subscribers' channels are open (as in every state the
  loop reaches, see \<open>reachable_inv\<close> below), \<^verbatim>\<open>doPublish\<close> ends without a panic and
  without waiting: every subscriber that is ready to receive gets the frame appended
  to what it has received, for every other subscriber nothing changes, and so what a
  subscriber gets depends on its own readiness only. Nothing else in the broker's
  state changes.
\<close>

theorem C5_publish_is_nonblocking_per_subscriber:
  assumes "distinct (subscribers st)" and "\<forall>s \<in> set (subscribers st). s \<notin> closedChans st"
  shows "\<exists>st'. doPublish d ready st = Inr st'
     \<and> (\<forall>s. received st' s =
            (if s \<in> set (subscribers st) \<and> ready s then received st s @ [d] else received st s))
     \<and> subscribers st' = subscribers st \<and> closedChans st' = closedChans st
     \<and> pubChan st' = pubChan st \<and> stopTimer st' = stopTimer st"
proof -
  from assms(2) have "set (subscribers st) \<inter> closedChans st = {}" by auto
  from doPublish_loop_result [OF assms(1) this, of d ready] show ?thesis
    by (simp add: doPublish_def)
qed

theorem C5_publish_is_nonblocking_per_subscriber_witness:
  "(\<exists>st'. doPublish ''f'' (\<lambda>s. s = 2)
           \<lparr>chunkerStarted = True, pubChan = True, subscribers = [1, 2, 3], stopTimer = False,
            closedChans = {}, received = (\<lambda>s. [])\<rparr> = Inr st'
      \<and> received st' 1 = [] \<and> received st' 2 = [''f''] \<and> received st' 3 = [])"
  using C5_publish_is_nonblocking_per_subscriber [of
      "\<lparr>chunkerStarted = True, pubChan = True, subscribers = [1, 2, 3], stopTimer = False,
            closedChans = {}, received = (\<lambda>s. [])\<rparr>" "''f''" "\<lambda>s. s = 2"]
  by auto

subsection \<open>A subscription whose start of the parser fails\<close>

text \<open>
  Claim C6. When the parser is not running (\<^verbatim>\<open>pubChan\<close> is \<^verbatim>\<open>nil\<close>, the chunker not
  started) and the connection attempt of \<^verbatim>\<open>doSubscribe\<close> fails, the handler ends with
  the channel of every subscriber closed, that of the new subscriber included, with
  an empty subscriber set, and with the parser still stopped.
\<close>

theorem C6_failed_start_closes_all:
  assumes "\<not> pubChan st" and "\<not> chunkerStarted st"
    and "distinct (subscribers st)" and "\<forall>x \<in> set (subscribers st). x \<notin> closedChans st"
    and "s \<notin> closedChans st"
  shows "\<exists>st'. doSubscribe s False st = Inr st'
     \<and> subscribers st' = []
     \<and> closedChans st' = closedChans st \<union> set (subscribers st) \<union> {s}
     \<and> \<not> pubChan st' \<and> \<not> chunkerStarted st'"
  using assms by (rule doSubscribe_failed_start)

theorem C6_failed_start_closes_all_witness:
  "\<not> pubChan NewPubSub \<and> \<not> chunkerStarted NewPubSub
   \<and> (\<exists>st'. doSubscribe 7 False NewPubSub = Inr st' \<and> subscribers st' = []
          \<and> closedChans st' = {7} \<and> \<not> pubChan st' \<and> \<not> chunkerStarted st')"
  using C6_failed_start_closes_all [of NewPubSub 7]
  by (simp add: NewPubSub_def)

subsection \<open>The parser handle and the subscriber set\<close>

text \<open>
  What holds in every state the event loop reaches: the chunker is started exactly
  when \<^verbatim>\<open>pubChan\<close> is set, a set \<^verbatim>\<open>pubChan\<close> has a subscriber or an armed timer,
  subscribers have a set \<^verbatim>\<open>pubChan\<close>, and their channels are open.
\<close>

definition broker_inv :: "PubSub \<Rightarrow> bool" where
  "broker_inv st = (chunkerStarted st = pubChan st
     \<and> (pubChan st \<longrightarrow> stopTimer st \<or> subscribers st \<noteq> [])
     \<and> (subscribers st \<noteq> [] \<longrightarrow> pubChan st)
     \<and> distinct (subscribers st) \<and> set (subscribers st) \<inter> closedChans st = {})"

lemma inv_step:
  assumes "broker_inv st" "enabled e st" "loop_step e st = Inr st'"
  shows "broker_inv st'"
proof (cases e)
  case (Publish d ready)
  with assms doPublish_loop_result [of "subscribers st" st d ready] show ?thesis
    by (auto simp: broker_inv_def doPublish_def)
next
  case ProducerEnded
  let ?st1 = "stopChunker st"
  from assms have d: "distinct (subscribers ?st1)" and c: "set (subscribers ?st1) \<inter> closedChans ?st1 = {}"
    by (auto simp: broker_inv_def stopChunker_def Chunker_Stop_def)
  from stopSubscribers_loop_result [OF d c] assms ProducerEnded show ?thesis
    by (auto simp: broker_inv_def stopSubscribers_def stopChunker_def Chunker_Stop_def)
next
  case (Subscribe s ok)
  let ?st1 = "st\<lparr>subscribers := List.insert s (subscribers st)\<rparr>"
  show ?thesis
  proof (cases "pubChan st \<or> ok")
    case True
    with assms Subscribe show ?thesis
      by (auto simp: broker_inv_def doSubscribe_def startChunker_def Chunker_Started_def
          Chunker_Connect_def Let_def split: if_splits)
  next
    case False
    with assms Subscribe have "\<not> pubChan st" "\<not> chunkerStarted st" "distinct (subscribers st)"
      "\<forall>x \<in> set (subscribers st). x \<notin> closedChans st" "s \<notin> closedChans st"
      by (auto simp: broker_inv_def)
    from doSubscribe_failed_start [OF this] False assms(3) Subscribe show ?thesis
      by (auto simp: broker_inv_def)
  qed
next
  case (Unsubscribe s)
  with assms show ?thesis
    by (auto simp: broker_inv_def doUnsubscribe_def Let_def distinct_removeAll split: if_splits)
next
  case IdleTimeout
  with assms show ?thesis
    by (auto simp: broker_inv_def stopChunker_def Chunker_Stop_def Let_def split: if_splits)
qed

lemma reachable_inv: "reachable st \<Longrightarrow> broker_inv st"
proof (induction rule: reachable.induct)
  case start
  show ?case by (simp add: broker_inv_def NewPubSub_def)
next
  case (step st e st')
  then show ?case by (blast intro: inv_step)
qed

lemma run_events_reachable:
  "reachable st \<Longrightarrow> run_events es st = Some st' \<Longrightarrow> reachable st'"
proof (induction es arbitrary: st)
  case Nil
  then show ?case by simp
next
  case (Cons e es)
  from Cons.prems(2) obtain st1 where
    "enabled e st" "loop_step e st = Inr st1" "run_events es st1 = Some st'"
    by (auto split: if_splits sum.splits)
  with Cons.prems(1) Cons.IH [of st1] show ?case by (blast intro: reachable.step)
qed

lemma run_events_append:
  "run_events (es @ [e]) st =
     (case run_events es st of
        None \<Rightarrow> None
      | Some st1 \<Rightarrow> run_events [e] st1)"
  by (induction es arbitrary: st) (auto split: sum.splits)

lemma reachable_run_events:
  "reachable st \<Longrightarrow> \<exists>es. run_events es NewPubSub = Some st"
proof (induction rule: reachable.induct)
  case start
  have "run_events [] NewPubSub = Some NewPubSub" by simp
  then show ?case by blast
next
  case (step st e st')
  then obtain es where "run_events es NewPubSub = Some st" by blast
  with step have "run_events (es @ [e]) NewPubSub = Some st'"
    by (simp add: run_events_append)
  then show ?case by blast
qed

text \<open>
  Claim C4, as stated, fails in the direction from the grace window to the handle:
  when the first subscription's connection attempt fails, \<^verbatim>\<open>stopSubscribers\<close> removes
  the subscriber through \<^verbatim>\<open>doUnsubscribe\<close>, which arms the idle timer, while \<^verbatim>\<open>pubChan\<close>
  stays \<^verbatim>\<open>nil\<close>. (The same happens when the producer ends.)
\<close>

theorem C4_handle_live_iff_counterexample:
  "\<not> (\<forall>st. reachable st \<longrightarrow> (pubChan st \<longleftrightarrow> subscribers st \<noteq> [] \<or> stopTimer st))"
proof
  assume a: "\<forall>st. reachable st \<longrightarrow> (pubChan st \<longleftrightarrow> subscribers st \<noteq> [] \<or> stopTimer st)"
  let ?s = "\<lparr>chunkerStarted = False, pubChan = False, subscribers = [], stopTimer = True,
          closedChans = {1}, received = (\<lambda>s. [])\<rparr>"
  have "run_events [Subscribe 1 False] NewPubSub = Some ?s"
    by (simp add: NewPubSub_def doSubscribe_def startChunker_def Chunker_Started_def
        Chunker_Connect_def stopSubscribers_def doUnsubscribe_def Let_def)
  from run_events_reachable [OF reachable.start this] have "reachable ?s" .
  with a have "pubChan ?s \<longleftrightarrow> subscribers ?s \<noteq> [] \<or> stopTimer ?s" by blast
  then show False by simp
qed

text \<open>
  Claim C4, amended. In every state the event loop reaches: if the parser handle is
  live, then the subscriber set is not empty or the idle timer is armed; and if the
  subscriber set is not empty, then the parser handle is live.
\<close>

theorem C4_handle_live_invariant:
  assumes "reachable st"
  shows "(pubChan st \<longrightarrow> stopTimer st \<or> subscribers st \<noteq> [])
       \<and> (subscribers st \<noteq> [] \<longrightarrow> pubChan st)"
  using reachable_inv [OF assms] by (simp add: broker_inv_def)

theorem C4_handle_live_invariant_witness:
  "run_events [Subscribe 1 True, Unsubscribe 1] NewPubSub =
     Some \<lparr>chunkerStarted = True, pubChan = True, subscribers = [], stopTimer = True,
           closedChans = {}, received = (\<lambda>s. [])\<rparr>
   \<and> reachable \<lparr>chunkerStarted = True, pubChan = True, subscribers = [], stopTimer = True,
          closedChans = {}, received = (\<lambda>s. [])\<rparr>
   \<and> stopTimer \<lparr>chunkerStarted = True, pubChan = True, subscribers = [], stopTimer = True,
          closedChans = {}, received = (\<lambda>s. [])\<rparr>"
proof -
  let ?s = "\<lparr>chunkerStarted = True, pubChan = True, subscribers = [], stopTimer = True,
          closedChans = {}, received = (\<lambda>s. [])\<rparr>"
  have run: "run_events [Subscribe 1 True, Unsubscribe 1] NewPubSub = Some ?s"
    by (simp add: NewPubSub_def doSubscribe_def startChunker_def Chunker_Started_def
        Chunker_Connect_def doUnsubscribe_def Let_def)
  from run_events_reachable [OF reachable.start this] have r: "reachable ?s" .
  from C4_handle_live_invariant [OF r] run r show ?thesis by simp
qed

section \<open>Properties of the stream responder\<close>

subsection \<open>The 503 response\<close>

lemma serveLoop_headersSent:
  "headersSent st \<Longrightarrow> headersSent (snd (serveLoop iv endTime evs st))"
proof (induction evs arbitrary: st)
  case Nil
  then show ?case by simp
next
  case (Cons e evs)
  show ?case
  proof (cases e)
    case (Chunk a)
    with Cons show ?thesis
      by (auto simp: sendPart_def Let_def split: write_outcome.splits)
  qed (use Cons in simp_all)
qed

lemma serveLoop_first_chunk:
  "\<not> headersSent st \<Longrightarrow> serveLoop iv endTime (Chunk a # evs) st = (Break, st') \<Longrightarrow>
   headersSent st' \<or> chunkOk st'"
  using serveLoop_headersSent [of "st\<lparr>data := payload a, chunkOk := True, headersSent := True,
      lastSendTime := nowSend a, parts := parts st @ [payload a]\<rparr>" iv endTime evs]
  by (auto simp: sendPart_def Let_def split: write_outcome.splits if_splits)

text \<open>
  Claim C7 does not hold of the code. The test after the loop is
  \<^verbatim>\<open>!headersSent && !chunkOk\<close>, and \<^verbatim>\<open>chunkOk\<close> is \<open>false\<close> not only after a receive
  from the closed channel but also as long as nothing was received. So a client that
  cancels before the first frame gets the same "Stream failed" 503 as a client whose
  delivery channel was closed by the broker: the handler of an accepted request
  answers 503 exactly when the first thing its loop sees is the closed channel or the
  cancellation.
\<close>

theorem C7_cancel_before_first_frame_gives_503:
  "ServeHTTP rnd \<lparr>httpMethod = ''GET'', formValid = True, fpsParsed = f, isFlusher = True\<rparr>
     endTime [CtxDone] = (ServiceUnavailable, responder0)
   \<and> (fst (ServeHTTP rnd r endTime evs) = ServiceUnavailable \<longleftrightarrow>
       (httpMethod r = ''GET'' \<or> httpMethod r = ''HEAD'') \<and> formValid r \<and> isFlusher r
       \<and> (\<exists>es. evs = ChanClosed # es \<or> evs = CtxDone # es))"
proof
  show "ServeHTTP rnd \<lparr>httpMethod = ''GET'', formValid = True, fpsParsed = f, isFlusher = True\<rparr>
     endTime [CtxDone] = (ServiceUnavailable, responder0)"
    by (simp add: ServeHTTP_def responder0_def)
  show "fst (ServeHTTP rnd r endTime evs) = ServiceUnavailable \<longleftrightarrow>
       (httpMethod r = ''GET'' \<or> httpMethod r = ''HEAD'') \<and> formValid r \<and> isFlusher r
       \<and> (\<exists>es. evs = ChanClosed # es \<or> evs = CtxDone # es)"
  proof (cases evs)
    case Nil
    then show ?thesis by (simp add: ServeHTTP_def)
  next
    case (Cons e es)
    show ?thesis
    proof (cases e)
      case (Chunk a)
      have "\<not> headersSent responder0" by (simp add: responder0_def)
      from serveLoop_first_chunk [OF this, of _ endTime a es] Cons Chunk show ?thesis
        by (auto simp: ServeHTTP_def split: prod.splits loop_exit.splits)
    next
      case ChanClosed
      with Cons show ?thesis by (auto simp: ServeHTTP_def responder0_def)
    next
      case CtxDone
      with Cons show ?thesis by (auto simp: ServeHTTP_def responder0_def)
    qed
  qed
qed

subsection \<open>Throttling\<close>

lemma interval_value:
  fixes x :: rat
  assumes "1 \<le> x" "x < 9223372036855"
  shows "sint (Duration_of_float (Finite x) * Millisecond) = \<lfloor>x\<rfloor> * 1000000"
proof -
  define n where "n = \<lfloor>x\<rfloor>"
  from assms have n: "1 \<le> n" "n < 9223372036855"
    by (simp_all add: n_def le_floor_iff floor_less_iff)
  from assms have t: "float_trunc x = n" by (simp add: float_trunc_def n_def)
  define k where "k = n * 1000000"
  have b: "- (2 ^ (LENGTH(64) - 1)) \<le> k" "k < 2 ^ (LENGTH(64) - 1)"
    using n by (simp_all add: k_def)
  have d: "Duration_of_float (Finite x) = word_of_int n"
    using n by (simp add: Duration_of_float_def t)
  have m: "(word_of_int n :: 64 word) * Millisecond = word_of_int k"
    by (simp add: k_def Millisecond_def)
  have "sint (word_of_int k :: 64 word) = k"
    unfolding sint_sbintrunc' by (rule signed_take_bit_int_eq_self [OF b])
  then show ?thesis by (simp only: d m) (simp add: k_def n_def)
qed

lemma interval_zero:
  fixes x :: rat
  assumes "0 \<le> x" "x < 1"
  shows "sint (Duration_of_float (Finite x) * Millisecond) = 0"
proof -
  from assms have "\<lfloor>x\<rfloor> = 0" by (intro floor_unique) simp_all
  with assms show ?thesis by (simp add: Duration_of_float_def float_trunc_def)
qed

lemma Time_Sub_less_iff:
  "0 < iv \<Longrightarrow> iv < 2 ^ 63 \<Longrightarrow> Time_Sub t u < iv \<longleftrightarrow> t - u < iv"
  by (auto simp: Time_Sub_def Let_def)

lemma serveLoop_unthrottled:
  "iv \<le> 0 \<Longrightarrow> list_all (\<lambda>a. nowAfter a \<le> endTime \<and> outcome a = Written) as \<Longrightarrow>
   \<exists>st'. serveLoop iv endTime (map Chunk as @ evs) st = serveLoop iv endTime evs st'
        \<and> parts st' = parts st @ map payload as"
proof (induction as arbitrary: st)
  case Nil
  show ?case by (intro exI [of _ st]) simp
next
  case (Cons a as)
  then have a: "nowAfter a \<le> endTime" "outcome a = Written"
    and rest: "list_all (\<lambda>a. nowAfter a \<le> endTime \<and> outcome a = Written) as" by simp_all
  have "\<exists>st2. serveLoop iv endTime (map Chunk (a # as) @ evs) st =
              serveLoop iv endTime (map Chunk as @ evs) st2
           \<and> parts st2 = parts st @ [payload a]"
  proof (cases "headersSent st")
    case True
    let ?st2 = "st\<lparr>data := payload a, chunkOk := True, lastSendTime := nowSend a,
                   parts := parts st @ [payload a]\<rparr>"
    have "serveLoop iv endTime (map Chunk (a # as) @ evs) st =
          serveLoop iv endTime (map Chunk as @ evs) ?st2"
      using a Cons.prems(1) True by (simp add: sendPart_def Let_def)
    then show ?thesis by (intro exI [of _ ?st2]) simp
  next
    case False
    let ?st2 = "st\<lparr>data := payload a, chunkOk := True, headersSent := True,
                   lastSendTime := nowSend a, parts := parts st @ [payload a]\<rparr>"
    have "serveLoop iv endTime (map Chunk (a # as) @ evs) st =
          serveLoop iv endTime (map Chunk as @ evs) ?st2"
      using a Cons.prems(1) False by (simp add: sendPart_def Let_def)
    then show ?thesis by (intro exI [of _ ?st2]) simp
  qed
  then obtain st2 where
    s: "serveLoop iv endTime (map Chunk (a # as) @ evs) st =
        serveLoop iv endTime (map Chunk as @ evs) st2"
    and p: "parts st2 = parts st @ [payload a]" by blast
  from Cons.IH [OF Cons.prems(1) rest, of st2] s p show ?case by simp
qed

lemma serveLoop_throttled:
  "0 < iv \<Longrightarrow> iv < 2 ^ 63 \<Longrightarrow>
   list_all (\<lambda>a. nowAfter a \<le> endTime \<and> outcome a = Written) as \<Longrightarrow>
   \<exists>st'. serveLoop iv endTime (map Chunk as @ evs) st = serveLoop iv endTime evs st'
        \<and> parts st' = parts st @ map payload
             (spec_throttle iv (if headersSent st then Some (lastSendTime st) else None) as)"
proof (induction as arbitrary: st)
  case Nil
  show ?case by (intro exI [of _ st]) simp
next
  case (Cons a as)
  then have a: "nowAfter a \<le> endTime" "outcome a = Written"
    and rest: "list_all (\<lambda>a. nowAfter a \<le> endTime \<and> outcome a = Written) as" by simp_all
  note ih = Cons.IH [OF Cons.prems(1,2) rest]
  let ?sent = "st\<lparr>data := payload a, chunkOk := True, headersSent := True,
                  lastSendTime := nowSend a, parts := parts st @ [payload a]\<rparr>"
  let ?skipped = "st\<lparr>data := payload a, chunkOk := True\<rparr>"
  show ?case
  proof (cases "headersSent st")
    case False
    have "serveLoop iv endTime (map Chunk (a # as) @ evs) st =
          serveLoop iv endTime (map Chunk as @ evs) ?sent"
      using a False by (simp add: sendPart_def Let_def)
    with ih [of ?sent] False show ?thesis by auto
  next
    case True
    show ?thesis
    proof (cases "nowSub a - lastSendTime st < iv")
      case early: True
      then have "Time_Sub (nowSub a) (lastSendTime st) < iv"
        using Cons.prems(1,2) by (simp add: Time_Sub_less_iff)
      then have "serveLoop iv endTime (map Chunk (a # as) @ evs) st =
          serveLoop iv endTime (map Chunk as @ evs) ?skipped"
        using a True Cons.prems(1) by simp
      with ih [of ?skipped] True early show ?thesis by auto
    next
      case late: False
      let ?resent = "st\<lparr>data := payload a, chunkOk := True, lastSendTime := nowSend a,
                  parts := parts st @ [payload a]\<rparr>"
      from late have "\<not> Time_Sub (nowSub a) (lastSendTime st) < iv"
        using Cons.prems(1,2) by (simp add: Time_Sub_less_iff)
      then have "serveLoop iv endTime (map Chunk (a # as) @ evs) st =
          serveLoop iv endTime (map Chunk as @ evs) ?resent"
        using a True by (simp add: sendPart_def Let_def)
      with ih [of ?resent] True late show ?thesis by auto
    qed
  qed
qed

lemma serveLoop_last_event:
  "evs = [] \<or> evs = [ChanClosed] \<or> evs = [CtxDone] \<Longrightarrow>
   parts (snd (serveLoop iv endTime evs st)) = parts st"
  by auto

lemma ServeHTTP_loop:
  "httpMethod r = ''GET'' \<or> httpMethod r = ''HEAD'' \<Longrightarrow> formValid r \<Longrightarrow> isFlusher r \<Longrightarrow>
   snd (ServeHTTP rnd r endTime evs) =
   snd (serveLoop (parseSendInterval rnd (fpsParsed r)) endTime evs responder0)"
  by (auto simp: ServeHTTP_def split: prod.splits loop_exit.splits)

lemma spec_throttle_min_gap:
  "min_gap iv (spec_throttle iv prev as)
   \<and> (case prev of
        None \<Rightarrow> True
      | Some t \<Rightarrow> (case spec_throttle iv prev as of [] \<Rightarrow> True | y # ys \<Rightarrow> iv \<le> nowSub y - t))"
proof (induction as arbitrary: prev)
  case Nil
  then show ?case by (simp split: option.splits)
next
  case (Cons a as)
  from Cons [of "Some (nowSend a)"] have
    sent: "min_gap iv (a # spec_throttle iv (Some (nowSend a)) as)"
    by (cases "spec_throttle iv (Some (nowSend a)) as") simp_all
  show ?case
  proof (cases prev)
    case None
    with sent show ?thesis by simp
  next
    case (Some t)
    with sent Cons [of "Some t"] show ?thesis by simp
  qed
qed

text \<open>
  Claim C8, as stated, fails: the interval is \<^verbatim>\<open>time.Duration(1000.0/f)\<close> milliseconds,
  and the conversion drops the fraction. For \<^verbatim>\<open>fps=2000\<close> the quotient is one half, the
  interval is 0 and nothing is throttled: a frame that arrives one nanosecond after
  the last frame sent, long before the half millisecond is over, is sent.
\<close>

theorem C8_fps_above_1000_counterexample:
  "(0::rat) < 2000
   \<and> parseSendInterval (\<lambda>x. x) (Some (Finite 2000)) = 0
   \<and> parts (snd (ServeHTTP (\<lambda>x. x)
        \<lparr>httpMethod = ''GET'', formValid = True, fpsParsed = Some (Finite 2000), isFlusher = True\<rparr>
        1000000000
        [Chunk \<lparr>payload = ''a'', nowAfter = 0, nowSub = 0, nowSend = 0, outcome = Written\<rparr>,
         Chunk \<lparr>payload = ''b'', nowAfter = 1, nowSub = 1, nowSend = 1, outcome = Written\<rparr>]))
     = [''a'', ''b'']"
proof -
  have fl: "\<lfloor>1 / 2 :: rat\<rfloor> = 0" by (rule floor_unique) simp_all
  have iv: "parseSendInterval (\<lambda>x. x) (Some (Finite 2000)) = 0"
    by (simp add: parseSendInterval_def float_div_def Duration_of_float_def float_trunc_def fl)
  show ?thesis
    by (simp add: iv ServeHTTP_def responder0_def sendPart_def)
qed

text \<open>
  Claim C8, amended. Take an accepted request, and frames received before the
  duration limit whose writes succeed, followed by nothing yet, by the closing of the
  channel or by the cancellation. If the \<^verbatim>\<open>fps\<close> parameter parses as a positive number
  \<open>f\<close> and the \<^verbatim>\<open>float64\<close> quotient \<open>1000/f\<close> is at least 1 (and below 9223372036855,
  so that the nanoseconds fit), the interval the responder uses is that quotient cut
  down to whole milliseconds, and the parts it writes are exactly the frames the
  specification's throttle with that interval lets through: the first frame, and
  then each frame received no less than the interval after the last frame sent; the
  others are skipped, not kept. If \<^verbatim>\<open>fps\<close> is absent or does not parse, or the quotient
  is below 1 (\<open>f\<close> above 1000), the interval is 0 and the responder writes every frame.
\<close>

theorem C8_throttle_interval_truncated:
  assumes "httpMethod r = ''GET'' \<or> httpMethod r = ''HEAD''" and "formValid r" and "isFlusher r"
    and "list_all (\<lambda>a. nowAfter a \<le> endTime \<and> outcome a = Written) as"
    and "evs = [] \<or> evs = [ChanClosed] \<or> evs = [CtxDone]"
  shows "(fpsParsed r = Some (Finite f) \<and> 0 < f
            \<and> 1 \<le> rnd (1000 / f) \<and> rnd (1000 / f) < 9223372036855 \<longrightarrow>
          parseSendInterval rnd (fpsParsed r) = \<lfloor>rnd (1000 / f)\<rfloor> * 1000000
          \<and> parts (snd (ServeHTTP rnd r endTime (map Chunk as @ evs))) =
              map payload (spec_throttle (\<lfloor>rnd (1000 / f)\<rfloor> * 1000000) None as)
          \<and> min_gap (\<lfloor>rnd (1000 / f)\<rfloor> * 1000000)
              (spec_throttle (\<lfloor>rnd (1000 / f)\<rfloor> * 1000000) None as))
       \<and> (fpsParsed r = None
            \<or> (fpsParsed r = Some (Finite f) \<and> 0 < f
                \<and> 0 \<le> rnd (1000 / f) \<and> rnd (1000 / f) < 1) \<longrightarrow>
          parseSendInterval rnd (fpsParsed r) = 0
          \<and> parts (snd (ServeHTTP rnd r endTime (map Chunk as @ evs))) = map payload as)"
proof (intro conjI impI)
  assume h: "fpsParsed r = Some (Finite f) \<and> 0 < f
            \<and> 1 \<le> rnd (1000 / f) \<and> rnd (1000 / f) < 9223372036855"
  define n where "n = \<lfloor>rnd (1000 / f)\<rfloor>"
  from h have n: "1 \<le> n" "n < 9223372036855"
    by (simp_all add: n_def le_floor_iff floor_less_iff)
  from h interval_value [of "rnd (1000 / f)"]
  have iv: "parseSendInterval rnd (fpsParsed r) = n * 1000000"
    by (simp add: parseSendInterval_def float_div_def n_def)
  then show "parseSendInterval rnd (fpsParsed r) = \<lfloor>rnd (1000 / f)\<rfloor> * 1000000"
    by (simp add: n_def)
  from n have pos: "0 < n * 1000000" and fit: "n * 1000000 < 2 ^ 63" by simp_all
  from serveLoop_throttled [OF pos fit assms(4), of evs responder0] obtain st' where
    "serveLoop (n * 1000000) endTime (map Chunk as @ evs) responder0 =
     serveLoop (n * 1000000) endTime evs st'"
    "parts st' = map payload (spec_throttle (n * 1000000) None as)"
    by (auto simp: responder0_def)
  with serveLoop_last_event [OF assms(5), of "n * 1000000" endTime st']
  have "parts (snd (serveLoop (n * 1000000) endTime (map Chunk as @ evs) responder0)) =
        map payload (spec_throttle (n * 1000000) None as)" by simp
  then show "parts (snd (ServeHTTP rnd r endTime (map Chunk as @ evs))) =
              map payload (spec_throttle (\<lfloor>rnd (1000 / f)\<rfloor> * 1000000) None as)"
    using ServeHTTP_loop [OF assms(1-3), of rnd endTime "map Chunk as @ evs"] iv
    by (simp add: n_def)
  from spec_throttle_min_gap [of "n * 1000000" None as]
  show "min_gap (\<lfloor>rnd (1000 / f)\<rfloor> * 1000000)
              (spec_throttle (\<lfloor>rnd (1000 / f)\<rfloor> * 1000000) None as)"
    by (simp add: n_def)
next
  assume h: "fpsParsed r = None
            \<or> (fpsParsed r = Some (Finite f) \<and> 0 < f
                \<and> 0 \<le> rnd (1000 / f) \<and> rnd (1000 / f) < 1)"
  then show iv: "parseSendInterval rnd (fpsParsed r) = 0"
    using interval_zero [of "rnd (1000 / f)"]
    by (auto simp: parseSendInterval_def float_div_def)
  from serveLoop_unthrottled [OF _ assms(4), of 0 evs responder0] obtain st' where
    "serveLoop 0 endTime (map Chunk as @ evs) responder0 = serveLoop 0 endTime evs st'"
    "parts st' = map payload as"
    by (auto simp: responder0_def)
  with serveLoop_last_event [OF assms(5), of 0 endTime st']
  have "parts (snd (serveLoop 0 endTime (map Chunk as @ evs) responder0)) = map payload as"
    by simp
  then show "parts (snd (ServeHTTP rnd r endTime (map Chunk as @ evs))) = map payload as"
    using ServeHTTP_loop [OF assms(1-3), of rnd endTime "map Chunk as @ evs"] iv by simp
qed

theorem C8_throttle_interval_truncated_witness:
  "parts (snd (ServeHTTP (\<lambda>x. x)
      \<lparr>httpMethod = ''GET'', formValid = True, fpsParsed = Some (Finite 3), isFlusher = True\<rparr>
      1000000000000
      [Chunk \<lparr>payload = ''a'', nowAfter = 0, nowSub = 0, nowSend = 10, outcome = Written\<rparr>,
       Chunk \<lparr>payload = ''b'', nowAfter = 333000000, nowSub = 333000009, nowSend = 333000009,
              outcome = Written\<rparr>,
       Chunk \<lparr>payload = ''c'', nowAfter = 333000010, nowSub = 333000010, nowSend = 333000020,
              outcome = Written\<rparr>,
       CtxDone])) = [''a'', ''c'']
   \<and> parts (snd (ServeHTTP (\<lambda>x. x)
      \<lparr>httpMethod = ''GET'', formValid = True, fpsParsed = None, isFlusher = True\<rparr>
      1000000000000
      [Chunk \<lparr>payload = ''a'', nowAfter = 0, nowSub = 0, nowSend = 10, outcome = Written\<rparr>,
       Chunk \<lparr>payload = ''b'', nowAfter = 333000000, nowSub = 333000009, nowSend = 333000009,
              outcome = Written\<rparr>,
       Chunk \<lparr>payload = ''c'', nowAfter = 333000010, nowSub = 333000010, nowSend = 333000020,
              outcome = Written\<rparr>,
       CtxDone])) = [''a'', ''b'', ''c'']"
proof -
  let ?a = "\<lparr>payload = ''a'', nowAfter = 0, nowSub = 0, nowSend = 10, outcome = Written\<rparr>"
  let ?b = "\<lparr>payload = ''b'', nowAfter = 333000000, nowSub = 333000009, nowSend = 333000009,
              outcome = Written\<rparr>"
  let ?c = "\<lparr>payload = ''c'', nowAfter = 333000010, nowSub = 333000010, nowSend = 333000020,
              outcome = Written\<rparr>"
  let ?r3 = "\<lparr>httpMethod = ''GET'', formValid = True, fpsParsed = Some (Finite 3), isFlusher = True\<rparr>"
  let ?r0 = "\<lparr>httpMethod = ''GET'', formValid = True, fpsParsed = None, isFlusher = True\<rparr>"
  have fl: "\<lfloor>1000 / 3 :: rat\<rfloor> = 333" by (rule floor_unique) simp_all
  have m: "httpMethod ?r3 = ''GET'' \<or> httpMethod ?r3 = ''HEAD''" "formValid ?r3" "isFlusher ?r3"
    "httpMethod ?r0 = ''GET'' \<or> httpMethod ?r0 = ''HEAD''" "formValid ?r0" "isFlusher ?r0"
    by simp_all
  have ok: "list_all (\<lambda>a. nowAfter a \<le> 1000000000000 \<and> outcome a = Written) [?a, ?b, ?c]"
    by simp
  have e: "[CtxDone] = [] \<or> [CtxDone] = [ChanClosed] \<or> [CtxDone] = [CtxDone]" by simp
  from C8_throttle_interval_truncated [OF m(1-3) ok e, of 3 "\<lambda>x. x"]
  have 1: "parts (snd (ServeHTTP (\<lambda>x. x) ?r3 1000000000000 (map Chunk [?a, ?b, ?c] @ [CtxDone])))
           = [''a'', ''c'']"
    by (simp add: fl)
  from C8_throttle_interval_truncated [OF m(4-6) ok e, of 3 "\<lambda>x. x"]
  have 2: "parts (snd (ServeHTTP (\<lambda>x. x) ?r0 1000000000000 (map Chunk [?a, ?b, ?c] @ [CtxDone])))
           = [''a'', ''b'', ''c'']"
    by simp
  from 1 2 show ?thesis by simp
qed

end
